theory Spec2Isabelle
  imports Main "HOL-Library.Sublist" "HOL-Library.AList"
begin

section \<open>The POSIX path functions the constants module imports\<close>

text \<open>
  \<^verbatim>\<open>constants.ts\<close> imports \<^verbatim>\<open>relative\<close>, \<^verbatim>\<open>normalize\<close> and \<^verbatim>\<open>join\<close> from the
  platform's \<^verbatim>\<open>path\<close> module. They are modelled here in their POSIX variant, on the
  segments between separators: the platform's character loop collects the characters
  between two \<^verbatim>\<open>/\<close> and then decides per segment, which is what \<open>normStep\<close> does.
\<close>

fun splitPath :: "string \<Rightarrow> string list" where
  "splitPath [] = [[]]"
| "splitPath (c # cs) =
     (if c = CHR ''/'' then [] # splitPath cs
      else (case splitPath cs of [] \<Rightarrow> [[c]] | s # ss \<Rightarrow> (c # s) # ss))"

fun joinSegs :: "string list \<Rightarrow> string" where
  "joinSegs [] = []"
| "joinSegs [s] = s"
| "joinSegs (s # t # ss) = s @ CHR ''/'' # joinSegs (t # ss)"

text \<open>
  One separator of \<^verbatim>\<open>normalizeString\<close>: an empty segment and \<^verbatim>\<open>.\<close> are dropped;
  \<^verbatim>\<open>..\<close> removes the last segment kept so far unless there is none or it is itself
  \<^verbatim>\<open>..\<close>, in which case it is kept only when \<^verbatim>\<open>allowAboveRoot\<close>; any other segment is
  appended.
\<close>

definition normStep :: "bool \<Rightarrow> string list \<Rightarrow> string \<Rightarrow> string list" where
  "normStep allowAboveRoot res seg =
     (if seg = [] \<or> seg = ''.'' then res
      else if seg = ''..'' then
        (if res \<noteq> [] \<and> last res \<noteq> ''..'' then butlast res
         else if allowAboveRoot then res @ [''..'']
         else res)
      else res @ [seg])"

definition normalizeString :: "string \<Rightarrow> bool \<Rightarrow> string" where
  "normalizeString path allowAboveRoot =
     joinSegs (foldl (normStep allowAboveRoot) [] (splitPath path))"

definition path_normalize :: "string \<Rightarrow> string" where
  "path_normalize path =
     (if path = [] then ''.''
      else
        let isAbsolute = (hd path = CHR ''/'');
            trailingSeparator = (last path = CHR ''/'');
            p = normalizeString path (\<not> isAbsolute)
        in if p = [] then
             (if isAbsolute then ''/'' else if trailingSeparator then ''./'' else ''.'')
           else
             let p' = (if trailingSeparator then p @ ''/'' else p)
             in if isAbsolute then CHR ''/'' # p' else p')"

definition path_join :: "string list \<Rightarrow> string" where
  "path_join args =
     (let parts = filter (\<lambda>arg. arg \<noteq> []) args
      in if parts = [] then ''.'' else path_normalize (joinSegs parts))"

text \<open>
  \<^verbatim>\<open>resolve\<close> walks its arguments from the right, then the current working directory,
  until the accumulated path is absolute; empty entries are skipped.
\<close>

fun resolveFrom :: "string list \<Rightarrow> string \<Rightarrow> string \<times> bool" where
  "resolveFrom [] resolvedPath = (resolvedPath, False)"
| "resolveFrom (path # rest) resolvedPath =
     (if path = [] then resolveFrom rest resolvedPath
      else
        let resolvedPath' = path @ CHR ''/'' # resolvedPath
        in if hd path = CHR ''/'' then (resolvedPath', True)
           else resolveFrom rest resolvedPath')"

definition path_resolve :: "string \<Rightarrow> string list \<Rightarrow> string" where
  "path_resolve cwd args =
     (case resolveFrom (rev args @ [cwd]) [] of
        (resolvedPath, resolvedAbsolute) \<Rightarrow>
          let p = normalizeString resolvedPath (\<not> resolvedAbsolute)
          in if resolvedAbsolute then CHR ''/'' # p
             else if p \<noteq> [] then p else ''.'')"

definition pathSegments :: "string \<Rightarrow> string list" where
  "pathSegments path = filter (\<lambda>seg. seg \<noteq> []) (splitPath path)"

fun dropCommon :: "string list \<Rightarrow> string list \<Rightarrow> string list \<times> string list" where
  "dropCommon (a # as) (b # bs) =
     (if a = b then dropCommon as bs else (a # as, b # bs))"
| "dropCommon as bs = (as, bs)"

text \<open>
  \<^verbatim>\<open>relative(from, to)\<close>: the empty string when both are the same string or resolve to
  the same path; otherwise one \<^verbatim>\<open>..\<close> for each segment of the resolved \<^verbatim>\<open>from\<close> below
  the common directory, followed by the segments of the resolved \<^verbatim>\<open>to\<close> below it.
\<close>

definition path_relative :: "string \<Rightarrow> string \<Rightarrow> string \<Rightarrow> string" where
  "path_relative cwd from to =
     (if from = to then []
      else
        let fromR = path_resolve cwd [from];
            toR = path_resolve cwd [to]
        in if fromR = toR then []
           else (case dropCommon (pathSegments fromR) (pathSegments toR) of
                   (up, down) \<Rightarrow> joinSegs (replicate (length up) ''..'' @ down)))"

text \<open>\<^verbatim>\<open>isAbsolute\<close>: the path begins with the separator.\<close>

definition path_isAbsolute :: "string \<Rightarrow> bool" where
  "path_isAbsolute path = (path \<noteq> [] \<and> hd path = CHR ''/'')"

section \<open>Values, objects and the collaborators of the constants module\<close>

text \<open>
  The values a constant can hold: \<^verbatim>\<open>undefined\<close>, a string, or a boolean
  (\<^verbatim>\<open>IS_LOCAL\<close>). An object is an association list of its own properties, read with
  \<open>getProp\<close> (a missing property reads as \<^verbatim>\<open>undefined\<close>) and written with
  \<open>setProp\<close>; \<open>entries\<close> lists every own key once.
\<close>

datatype jsval = Undefined | Str string | Bool bool

datatype error = TypeError

type_synonym jsobject = "(string \<times> jsval) list"

definition getProp :: "jsobject \<Rightarrow> string \<Rightarrow> jsval" where
  "getProp obj key = (case map_of obj key of None \<Rightarrow> Undefined | Some v \<Rightarrow> v)"

definition setProp :: "jsobject \<Rightarrow> string \<Rightarrow> jsval \<Rightarrow> jsobject" where
  "setProp obj key v = AList.update key v obj"

definition entries :: "jsobject \<Rightarrow> (string \<times> jsval) list" where
  "entries obj = AList.clearjunk obj"

text \<open>\<^verbatim>\<open>Object.assign(target, ...sources)\<close>: later sources overwrite earlier ones.\<close>

definition assignFrom :: "jsobject \<Rightarrow> jsobject \<Rightarrow> jsobject" where
  "assignFrom target source = foldl (\<lambda>t (key, v). setProp t key v) target (entries source)"

definition objectAssign :: "jsobject \<Rightarrow> jsobject list \<Rightarrow> jsobject" where
  "objectAssign target sources = foldl assignFrom target sources"

text \<open>
  \<^verbatim>\<open>mapObj(object, mapper)\<close> of the map-obj package, in its default shallow mode: a new
  object that holds, for every entry of \<open>object\<close>, the key and value the mapper returns.
  An exception of the mapper leaves \<^verbatim>\<open>mapObj\<close>.
\<close>

fun mapObjInto ::
  "(string \<Rightarrow> jsval \<Rightarrow> error + string \<times> jsval) \<Rightarrow> (string \<times> jsval) list \<Rightarrow> jsobject
     \<Rightarrow> error + jsobject" where
  "mapObjInto mapper [] target = Inr target"
| "mapObjInto mapper ((key, v) # rest) target =
     (case mapper key v of
        Inl e \<Rightarrow> Inl e
      | Inr (newKey, newValue) \<Rightarrow> mapObjInto mapper rest (setProp target newKey newValue))"

definition mapObj ::
  "jsobject \<Rightarrow> (string \<Rightarrow> jsval \<Rightarrow> error + string \<times> jsval) \<Rightarrow> error + jsobject" where
  "mapObj obj mapper = mapObjInto mapper (entries obj) []"

text \<open>
  \<^verbatim>\<open>pathExists\<close> of the path-exists package awaits the platform's access check and
  answers \<^verbatim>\<open>true\<close> when it succeeds, \<^verbatim>\<open>false\<close> when it rejects, whatever the reason.
  The file system is the function that gives the outcome of the access check of a path.
\<close>

datatype access_result = AccessOk | AccessRejected string

type_synonym filesystem = "string \<Rightarrow> access_result"

definition pathExists :: "filesystem \<Rightarrow> string \<Rightarrow> bool" where
  "pathExists fs path = (case fs path of AccessOk \<Rightarrow> True | AccessRejected code \<Rightarrow> False)"

section \<open>The constants module\<close>

definition INTERNAL_EDGE_FUNCTIONS_SRC :: string where
  "INTERNAL_EDGE_FUNCTIONS_SRC = ''.netlify/edge-functions''"

definition INTERNAL_FUNCTIONS_SRC :: string where
  "INTERNAL_FUNCTIONS_SRC = ''.netlify/functions-internal''"

definition CONSTANT_PATHS :: "string set" where
  "CONSTANT_PATHS =
     {''CONFIG_PATH'', ''PUBLISH_DIR'', ''FUNCTIONS_SRC'', ''FUNCTIONS_DIST'',
      ''INTERNAL_EDGE_FUNCTIONS_SRC'', ''INTERNAL_FUNCTIONS_SRC'', ''EDGE_FUNCTIONS_DIST'',
      ''EDGE_FUNCTIONS_SRC'', ''CACHE_DIR''}"

definition isEmptyValue :: "jsval \<Rightarrow> bool" where
  "isEmptyValue path = (path = Undefined \<or> path = Str [])"

text \<open>
  \<^verbatim>\<open>normalizePath(path, buildDir, key)\<close>. The first argument of the model is the
  working directory of the process, which \<^verbatim>\<open>relative\<close> reads. A value that is neither
  \<^verbatim>\<open>undefined\<close> nor a string under a path key makes \<^verbatim>\<open>normalize\<close> throw.
\<close>

definition normalizePath :: "string \<Rightarrow> jsval \<Rightarrow> string \<Rightarrow> string \<Rightarrow> error + jsval" where
  "normalizePath cwd path buildDir key =
     (if path = Undefined \<or> path = Str [] \<or> key \<notin> CONSTANT_PATHS then Inr path
      else
        (case path of
           Str p \<Rightarrow>
             let pathA = path_normalize p
             in if pathA = buildDir then Inr (Str ''.'')
                else if prefix buildDir pathA then Inr (Str (path_relative cwd buildDir pathA))
                else Inr (Str pathA)
         | _ \<Rightarrow> Inl TypeError))"

definition normalizeConstantsPaths :: "string \<Rightarrow> jsobject \<Rightarrow> string \<Rightarrow> error + jsobject" where
  "normalizeConstantsPaths cwd constants buildDir =
     mapObj constants
       (\<lambda>key path.
          case normalizePath cwd path buildDir key of
            Inl e \<Rightarrow> Inl e
          | Inr v \<Rightarrow> Inr (key, v))"

record default_path =
  constantName :: string
  defaultPath :: string

definition DEFAULT_PATHS :: "default_path list" where
  "DEFAULT_PATHS =
     [\<lparr>constantName = ''FUNCTIONS_SRC'', defaultPath = ''netlify-automatic-functions''\<rparr>,
      \<lparr>constantName = ''FUNCTIONS_SRC'', defaultPath = ''netlify/functions''\<rparr>,
      \<lparr>constantName = ''EDGE_FUNCTIONS_SRC'', defaultPath = ''netlify/edge-functions''\<rparr>]"

definition addDefaultConstant ::
  "filesystem \<Rightarrow> jsobject \<Rightarrow> string \<Rightarrow> string \<Rightarrow> string \<Rightarrow> jsobject" where
  "addDefaultConstant fs constants cName dPath buildDir =
     (if \<not> isEmptyValue (getProp constants cName)
         \<or> \<not> pathExists fs (buildDir @ ''/'' @ dPath)
      then []
      else [(cName, Str dPath)])"

definition addDefaultConstants :: "filesystem \<Rightarrow> jsobject \<Rightarrow> string \<Rightarrow> jsobject" where
  "addDefaultConstants fs constants buildDir =
     (let newConstants =
            map (\<lambda>rule. addDefaultConstant fs constants (constantName rule) (defaultPath rule)
                          buildDir)
              DEFAULT_PATHS
      in objectAssign [] (constants # newConstants))"

record build_config =
  publish :: "string option"
  edge_functions :: "string option"

record netlify_config =
  build :: build_config
  functionsDirectory :: "string option"

definition jsOf :: "string option \<Rightarrow> jsval" where
  "jsOf x = (case x of None \<Rightarrow> Undefined | Some s \<Rightarrow> Str s)"

text \<open>
  The record \<^verbatim>\<open>constantsA\<close> of \<^verbatim>\<open>addMutableConstants\<close>: a copy of the constants
  with the three fields of the live configuration written over it.
\<close>

definition constantsA :: "jsobject \<Rightarrow> netlify_config \<Rightarrow> jsobject" where
  "constantsA constants netlifyConfig =
     setProp
       (setProp
          (setProp (objectAssign [] [constants])
             ''PUBLISH_DIR'' (jsOf (publish (build netlifyConfig))))
          ''FUNCTIONS_SRC'' (jsOf (functionsDirectory netlifyConfig)))
       ''EDGE_FUNCTIONS_SRC'' (jsOf (edge_functions (build netlifyConfig)))"

definition addMutableConstants ::
  "string \<Rightarrow> filesystem \<Rightarrow> jsobject \<Rightarrow> string \<Rightarrow> netlify_config \<Rightarrow> error + jsobject" where
  "addMutableConstants cwd fs constants buildDir netlifyConfig =
     (let constantsB = addDefaultConstants fs (constantsA constants netlifyConfig) buildDir;
          constantsC = normalizeConstantsPaths cwd constantsB buildDir
      in constantsC)"

text \<open>
  The arguments of \<^verbatim>\<open>getConstants\<close>. \<open>siteId\<close> is \<^verbatim>\<open>siteInfo.id\<close>. The cache directory
  utility and the version of the root package manifest are imported from outside the
  module and are parameters of the model.
\<close>

record constants_input =
  configPath :: "string option"
  buildDir :: string
  packagePath :: "string option"
  functionsDistDir :: string
  edgeFunctionsDistDir :: string
  cacheDir :: "string option"
  netlifyConfig :: netlify_config
  siteId :: "string option"
  apiHost :: "string option"
  token :: "string option"
  mode :: string

definition orEmpty :: "string option \<Rightarrow> string" where
  "orEmpty x = (case x of None \<Rightarrow> [] | Some s \<Rightarrow> s)"

definition baseConstants ::
  "(string option \<Rightarrow> string \<Rightarrow> string) \<Rightarrow> string \<Rightarrow> constants_input \<Rightarrow> jsobject" where
  "baseConstants getCacheDir version inp =
     (let isLocal = (mode inp \<noteq> ''buildbot'');
          normalizedCacheDir =
            getCacheDir (cacheDir inp) (path_join [buildDir inp, orEmpty (packagePath inp)])
      in [(''CONFIG_PATH'', jsOf (configPath inp)),
          (''PACKAGE_PATH'', jsOf (packagePath inp)),
          (''FUNCTIONS_DIST'',
             Str (if \<not> isLocal then functionsDistDir inp
                  else path_join [orEmpty (packagePath inp), functionsDistDir inp])),
          (''EDGE_FUNCTIONS_DIST'',
             Str (if \<not> isLocal then edgeFunctionsDistDir inp
                  else path_join [orEmpty (packagePath inp), edgeFunctionsDistDir inp])),
          (''CACHE_DIR'', Str normalizedCacheDir),
          (''IS_LOCAL'', Bool isLocal),
          (''NETLIFY_BUILD_VERSION'', Str version),
          (''SITE_ID'', jsOf (siteId inp)),
          (''NETLIFY_API_TOKEN'', jsOf (token inp)),
          (''NETLIFY_API_HOST'', jsOf (apiHost inp)),
          (''INTERNAL_FUNCTIONS_SRC'',
             Str (path_join [buildDir inp, orEmpty (packagePath inp), INTERNAL_FUNCTIONS_SRC])),
          (''INTERNAL_EDGE_FUNCTIONS_SRC'',
             Str (path_join
                    [buildDir inp, orEmpty (packagePath inp), INTERNAL_EDGE_FUNCTIONS_SRC]))])"

definition getConstants ::
  "string \<Rightarrow> filesystem \<Rightarrow> (string option \<Rightarrow> string \<Rightarrow> string) \<Rightarrow> string
     \<Rightarrow> constants_input \<Rightarrow> error + jsobject" where
  "getConstants cwd fs getCacheDir version inp =
     addMutableConstants cwd fs (baseConstants getCacheDir version inp) (buildDir inp)
       (netlifyConfig inp)"

section \<open>Reading results\<close>

text \<open>The value of one constant in the outcome of a computation that may throw.\<close>

definition constantOf :: "error + jsobject \<Rightarrow> string \<Rightarrow> error + jsval" where
  "constantOf outcome key =
     (case outcome of Inl e \<Rightarrow> Inl e | Inr constants \<Rightarrow> Inr (getProp constants key))"

text \<open>
  The record type of the module gives every path constant a string or \<^verbatim>\<open>undefined\<close>;
  an object satisfies it when no path key holds a boolean.
\<close>

definition pathsAreStrings :: "jsobject \<Rightarrow> bool" where
  "pathsAreStrings constants =
     (\<forall>key \<in> CONSTANT_PATHS. case getProp constants key of Bool b \<Rightarrow> False | _ \<Rightarrow> True)"

text \<open>
  A segment that \<^verbatim>\<open>normalizeString\<close> keeps as it is: not empty, not \<^verbatim>\<open>.\<close> or
  \<^verbatim>\<open>..\<close>, and without a separator.
\<close>

definition plainSegment :: "string \<Rightarrow> bool" where
  "plainSegment seg =
     (seg \<noteq> [] \<and> seg \<noteq> ''.'' \<and> seg \<noteq> ''..'' \<and> CHR ''/'' \<notin> set seg)"

section \<open>Concrete inputs\<close>

text \<open>
  A build root \<^verbatim>\<open>/site\<close> that holds both candidate function directories, and a file
  system on which every access check is rejected for lack of permission.
\<close>

definition bothFunctionDirs :: filesystem where
  "bothFunctionDirs path =
     (if path = ''/site/netlify-automatic-functions'' \<or> path = ''/site/netlify/functions''
      then AccessOk else AccessRejected ''ENOENT'')"

definition noAccess :: filesystem where
  "noAccess path = AccessRejected ''EACCES''"

definition explicitFunctionsSrc :: jsobject where
  "explicitFunctionsSrc = [(''FUNCTIONS_SRC'', Str ''src/fns'')]"

definition staleBase :: jsobject where
  "staleBase =
     [(''PUBLISH_DIR'', Str ''dist''), (''FUNCTIONS_SRC'', Str ''fns''),
      (''EDGE_FUNCTIONS_SRC'', Str ''edge''), (''PACKAGE_PATH'', Str ''/site/pkg''),
      (''IS_LOCAL'', Bool True)]"

definition emptyConfig :: netlify_config where
  "emptyConfig =
     \<lparr>build = \<lparr>publish = None, edge_functions = None\<rparr>, functionsDirectory = None\<rparr>"

definition stubCacheDir :: "string option \<Rightarrow> string \<Rightarrow> string" where
  "stubCacheDir requested dir = path_join [dir, ''.netlify/cache'']"

definition localInput :: constants_input where
  "localInput =
     \<lparr>configPath = Some ''/site/netlify.toml'', buildDir = ''/site'',
      packagePath = Some ''pkg'', functionsDistDir = ''/tmp/dist'',
      edgeFunctionsDistDir = ''/tmp/edge'', cacheDir = None, netlifyConfig = emptyConfig,
      siteId = Some ''site-id'', apiHost = None, token = None, mode = ''cli''\<rparr>"

definition remoteInput :: constants_input where
  "remoteInput = localInput\<lparr>mode := ''buildbot''\<rparr>"

definition remoteInsideInput :: constants_input where
  "remoteInsideInput =
     remoteInput\<lparr>functionsDistDir := ''/site/.netlify/functions''\<rparr>"

section \<open>Objects\<close>

lemma getProp_Nil: "getProp [] k = Undefined"
  by (simp add: getProp_def)

lemma getProp_Cons: "getProp ((key, v) # obj) k = (if k = key then v else getProp obj k)"
  by (simp add: getProp_def)

lemma map_of_setProp: "map_of (setProp obj key v) = (map_of obj)(key \<mapsto> v)"
  by (simp add: setProp_def update_conv')

lemma getProp_setProp:
  "getProp (setProp obj key v) k = (if k = key then v else getProp obj k)"
  by (simp add: getProp_def map_of_setProp)

lemma map_of_entries: "map_of (entries obj) = map_of obj"
  by (simp add: entries_def map_of_clearjunk)

lemma distinct_entries: "distinct (map fst (entries obj))"
  by (simp add: entries_def)

lemma map_of_foldl_setProp:
  "distinct (map fst xs) \<Longrightarrow>
   map_of (foldl (\<lambda>t (key, v). setProp t key v) target xs) k =
     (case map_of xs k of None \<Rightarrow> map_of target k | Some v \<Rightarrow> Some v)"
proof (induction xs arbitrary: target)
  case Nil
  then show ?case by simp
next
  case (Cons x xs)
  obtain key v where x: "x = (key, v)" by (cases x)
  from Cons.prems x have fresh: "map_of xs key = None" and d: "distinct (map fst xs)"
    by (auto simp: map_of_eq_None_iff)
  show ?case
    using Cons.IH [OF d, of "setProp target key v"] fresh
    by (auto simp: x map_of_setProp split: option.splits)
qed

lemma getProp_assignFrom:
  "getProp (assignFrom target source) k =
     (case map_of source k of None \<Rightarrow> getProp target k | Some v \<Rightarrow> v)"
  by (simp add: getProp_def assignFrom_def map_of_foldl_setProp distinct_entries map_of_entries
      split: option.splits)

lemma getProp_spread: "getProp (objectAssign [] [obj]) k = getProp obj k"
  by (simp add: objectAssign_def getProp_assignFrom getProp_Nil)
     (simp add: getProp_def split: option.splits)

text \<open>
  What a mapper that keeps the key does to the target of \<open>mapObjInto\<close>: every entry
  was mapped without an exception, and the target holds the mapped values.
\<close>

lemma mapObjInto_value:
  assumes "distinct (map fst xs)"
    and "mapObjInto (\<lambda>key path. case f key path of Inl e \<Rightarrow> Inl e | Inr v \<Rightarrow> Inr (key, v)) xs t
           = Inr t'"
  shows "map_of t' k =
           (case map_of xs k of None \<Rightarrow> map_of t k
            | Some v \<Rightarrow> (case f k v of Inl e \<Rightarrow> None | Inr v' \<Rightarrow> Some v'))
         \<and> (\<forall>v. map_of xs k = Some v \<longrightarrow> (\<exists>v'. f k v = Inr v'))"
  using assms
proof (induction xs arbitrary: t)
  case Nil
  then show ?case by simp
next
  case (Cons x xs)
  obtain key v where x: "x = (key, v)" by (cases x)
  from Cons.prems(1) x have fresh: "map_of xs key = None" and d: "distinct (map fst xs)"
    by (auto simp: map_of_eq_None_iff)
  from Cons.prems(2) x obtain v' where fv: "f key v = Inr v'"
    and rest: "mapObjInto (\<lambda>key path. case f key path of Inl e \<Rightarrow> Inl e | Inr v \<Rightarrow> Inr (key, v))
                 xs (setProp t key v') = Inr t'"
    by (auto split: sum.splits)
  show ?case
    using Cons.IH [OF d rest] fresh fv
    by (auto simp: x map_of_setProp split: option.splits)
qed

lemma mapObjInto_total:
  assumes "\<forall>(k, v) \<in> set xs. \<exists>v'. f k v = Inr v'"
  shows "\<exists>t'. mapObjInto (\<lambda>key path. case f key path of Inl e \<Rightarrow> Inl e | Inr v \<Rightarrow> Inr (key, v))
                 xs t = Inr t'"
  using assms
proof (induction xs arbitrary: t)
  case Nil
  then show ?case by simp
next
  case (Cons x xs)
  obtain key v where x: "x = (key, v)" by (cases x)
  from Cons.prems x obtain v' where fv: "f key v = Inr v'" by auto
  from Cons.prems have "\<forall>(k, v) \<in> set xs. \<exists>v'. f k v = Inr v'" by simp
  from Cons.IH [OF this, of "setProp t key v'"] show ?case
    by (simp add: x fv)
qed

section \<open>Normalizing a record\<close>

lemma normalizePath_throws_iff:
  "normalizePath cwd path root key = Inl e \<longleftrightarrow> (key \<in> CONSTANT_PATHS \<and> (\<exists>b. path = Bool b))"
  by (cases path; cases e) (auto simp: normalizePath_def Let_def)

lemma pathsAreStrings_iff:
  "pathsAreStrings constants \<longleftrightarrow> (\<forall>key \<in> CONSTANT_PATHS. \<forall>b. getProp constants key \<noteq> Bool b)"
  by (auto simp: pathsAreStrings_def split: jsval.splits)

lemma normalizeConstantsPaths_getProp:
  assumes "normalizeConstantsPaths cwd constants root = Inr c'"
  shows "normalizePath cwd (getProp constants k) root k = Inr (getProp c' k)"
proof -
  from assms have m: "mapObjInto
      (\<lambda>key path. case normalizePath cwd path root key of Inl e \<Rightarrow> Inl e | Inr v \<Rightarrow> Inr (key, v))
      (entries constants) [] = Inr c'"
    by (simp add: normalizeConstantsPaths_def mapObj_def)
  note r = mapObjInto_value [OF distinct_entries m, of k, unfolded map_of_entries]
  show ?thesis
  proof (cases "map_of constants k")
    case None
    with r show ?thesis by (simp add: getProp_def normalizePath_def)
  next
    case (Some v)
    with r show ?thesis by (auto simp: getProp_def)
  qed
qed

lemma normalizeConstantsPaths_total:
  assumes "pathsAreStrings constants"
  shows "\<exists>c'. normalizeConstantsPaths cwd constants root = Inr c'"
proof -
  have "\<forall>(k, v) \<in> set (entries constants). \<exists>v'. normalizePath cwd v root k = Inr v'"
  proof (clarify)
    fix k v assume "(k, v) \<in> set (entries constants)"
    then have "map_of (entries constants) k = Some v"
      using distinct_entries by simp
    then have g: "getProp constants k = v"
      by (simp add: map_of_entries getProp_def)
    show "\<exists>v'. normalizePath cwd v root k = Inr v'"
    proof (cases "normalizePath cwd v root k")
      case (Inl e)
      then have "k \<in> CONSTANT_PATHS" and "\<exists>b. v = Bool b"
        by (simp_all add: normalizePath_throws_iff)
      with assms g show ?thesis by (auto simp: pathsAreStrings_iff)
    next
      case (Inr v')
      then show ?thesis by simp
    qed
  qed
  from mapObjInto_total [OF this] show ?thesis
    by (simp add: normalizeConstantsPaths_def mapObj_def)
qed

section \<open>Default detection and recomputation\<close>

lemma pathExists_iff: "pathExists fs path \<longleftrightarrow> fs path = AccessOk"
  by (simp add: pathExists_def split: access_result.splits)

lemma getProp_addDefaultConstants:
  "getProp (addDefaultConstants fs constants root) k =
     (if isEmptyValue (getProp constants k) then
        (if k = ''FUNCTIONS_SRC'' then
           (if pathExists fs (root @ ''/'' @ ''netlify/functions'') then Str ''netlify/functions''
            else if pathExists fs (root @ ''/'' @ ''netlify-automatic-functions'')
              then Str ''netlify-automatic-functions''
            else getProp constants k)
         else if k = ''EDGE_FUNCTIONS_SRC'' then
           (if pathExists fs (root @ ''/'' @ ''netlify/edge-functions'')
              then Str ''netlify/edge-functions''
            else getProp constants k)
         else getProp constants k)
      else getProp constants k)"
  by (simp add: addDefaultConstants_def DEFAULT_PATHS_def objectAssign_def getProp_assignFrom
      addDefaultConstant_def getProp_Nil)
     (simp add: getProp_def split: option.splits)

lemma getProp_constantsA:
  "getProp (constantsA constants cfg) k =
     (if k = ''EDGE_FUNCTIONS_SRC'' then jsOf (edge_functions (build cfg))
      else if k = ''FUNCTIONS_SRC'' then jsOf (functionsDirectory cfg)
      else if k = ''PUBLISH_DIR'' then jsOf (publish (build cfg))
      else getProp constants k)"
  by (simp add: constantsA_def getProp_setProp getProp_spread)

lemma jsOf_not_Bool: "jsOf x \<noteq> Bool b"
  by (simp add: jsOf_def split: option.splits)

lemma pathsAreStrings_constantsA:
  "pathsAreStrings constants \<Longrightarrow> pathsAreStrings (constantsA constants cfg)"
  by (simp add: pathsAreStrings_iff getProp_constantsA jsOf_not_Bool)

lemma pathsAreStrings_addDefaultConstants:
  assumes "pathsAreStrings constants"
  shows "pathsAreStrings (addDefaultConstants fs constants root)"
proof -
  have "getProp (addDefaultConstants fs constants root) key \<noteq> Bool b"
    if "key \<in> CONSTANT_PATHS" for key b
  proof -
    from assms that have "getProp constants key \<noteq> Bool b"
      by (simp add: pathsAreStrings_iff)
    then show ?thesis
      unfolding getProp_addDefaultConstants by (auto simp: isEmptyValue_def)
  qed
  then show ?thesis by (simp add: pathsAreStrings_iff)
qed

lemma addMutableConstants_getProp:
  "addMutableConstants cwd fs constants root cfg = Inr c' \<Longrightarrow>
   normalizePath cwd (getProp (addDefaultConstants fs (constantsA constants cfg) root) k) root k
     = Inr (getProp c' k)"
  by (simp add: addMutableConstants_def normalizeConstantsPaths_getProp)

lemma addMutableConstants_total:
  "pathsAreStrings constants \<Longrightarrow> \<exists>c'. addMutableConstants cwd fs constants root cfg = Inr c'"
  by (simp add: addMutableConstants_def normalizeConstantsPaths_total
      pathsAreStrings_addDefaultConstants pathsAreStrings_constantsA)

lemma pathsAreStrings_baseConstants: "pathsAreStrings (baseConstants getCacheDir version inp)"
  by (simp add: pathsAreStrings_iff CONSTANT_PATHS_def baseConstants_def Let_def getProp_Cons
      getProp_Nil jsOf_not_Bool)

lemma constantOf_getConstants:
  "constantOf (getConstants cwd fs getCacheDir version inp) k =
     normalizePath cwd
       (getProp (addDefaultConstants fs
                   (constantsA (baseConstants getCacheDir version inp) (netlifyConfig inp))
                   (buildDir inp)) k)
       (buildDir inp) k"
proof -
  from addMutableConstants_total [OF pathsAreStrings_baseConstants,
      of cwd fs getCacheDir version inp "buildDir inp" "netlifyConfig inp"]
  obtain c' where c': "getConstants cwd fs getCacheDir version inp = Inr c'"
    by (auto simp: getConstants_def)
  then show ?thesis
    using addMutableConstants_getProp [of cwd fs _ "buildDir inp" "netlifyConfig inp" c' k]
    by (simp add: constantOf_def getConstants_def)
qed

section \<open>Claims about default detection\<close>

text \<open>
  C3. Default detection never overwrites an explicitly set value: a constant that holds a
  non-empty string holds the same string in the record that \<open>addDefaultConstants\<close>
  returns, whatever the file system answers; and a constant whose value differs after
  detection was \<^verbatim>\<open>undefined\<close> or the empty string before.
\<close>

theorem addDefaultConstants_keeps_explicit:
  "(getProp constants k = Str s \<and> s \<noteq> [] \<longrightarrow>
      getProp (addDefaultConstants fs constants root) k = Str s)
   \<and> (getProp (addDefaultConstants fs constants root) k \<noteq> getProp constants k \<longrightarrow>
        isEmptyValue (getProp constants k))"
  by (simp add: getProp_addDefaultConstants isEmptyValue_def)

theorem addDefaultConstants_keeps_explicit_witness:
  "getProp explicitFunctionsSrc ''FUNCTIONS_SRC'' = Str ''src/fns''
   \<and> pathExists bothFunctionDirs ''/site/netlify/functions''
   \<and> getProp (addDefaultConstants bothFunctionDirs explicitFunctionsSrc ''/site'')
        ''FUNCTIONS_SRC'' = Str ''src/fns''
   \<and> getProp (addDefaultConstants bothFunctionDirs [] ''/site'') ''FUNCTIONS_SRC''
        \<noteq> getProp [] ''FUNCTIONS_SRC''
   \<and> isEmptyValue (getProp [] ''FUNCTIONS_SRC'')"
proof -
  have a: "getProp explicitFunctionsSrc ''FUNCTIONS_SRC'' = Str ''src/fns''"
    by code_simp
  have b: "pathExists bothFunctionDirs ''/site/netlify/functions''"
    by code_simp
  have c: "getProp (addDefaultConstants bothFunctionDirs [] ''/site'') ''FUNCTIONS_SRC''
             \<noteq> getProp [] ''FUNCTIONS_SRC''"
    by code_simp
  from a b c
    addDefaultConstants_keeps_explicit
      [of explicitFunctionsSrc "''FUNCTIONS_SRC''" "''src/fns''" bothFunctionDirs "''/site''"]
    addDefaultConstants_keeps_explicit
      [of "[]" "''FUNCTIONS_SRC''" "''src/fns''" bothFunctionDirs "''/site''"]
  show ?thesis by simp
qed

text \<open>
  C1, as stated, fails: with \<^verbatim>\<open>FUNCTIONS_SRC\<close> unset and both candidate directories
  present under \<^verbatim>\<open>/site\<close>, detection assigns \<^verbatim>\<open>netlify/functions\<close>, the later rule,
  and not \<^verbatim>\<open>netlify-automatic-functions\<close>.
\<close>

theorem first_match_wins_counterexample:
  "isEmptyValue (getProp [] ''FUNCTIONS_SRC'')
   \<and> pathExists bothFunctionDirs (''/site'' @ ''/'' @ ''netlify-automatic-functions'')
   \<and> pathExists bothFunctionDirs (''/site'' @ ''/'' @ ''netlify/functions'')
   \<and> getProp (addDefaultConstants bothFunctionDirs [] ''/site'') ''FUNCTIONS_SRC''
        = Str ''netlify/functions''
   \<and> getProp (addDefaultConstants bothFunctionDirs [] ''/site'') ''FUNCTIONS_SRC''
        \<noteq> Str ''netlify-automatic-functions''"
  by code_simp

text \<open>
  C1, amended. Every rule is evaluated against the record as it was before detection and
  the results are assigned in declared order, so among the rules for \<^verbatim>\<open>FUNCTIONS_SRC\<close>
  the last one whose candidate exists wins: \<^verbatim>\<open>netlify/functions\<close> when it exists,
  \<^verbatim>\<open>netlify-automatic-functions\<close> only when it exists and \<^verbatim>\<open>netlify/functions\<close> does
  not, and the previous (unset) value when neither exists. No rule is skipped because an
  earlier rule for the same constant matched.
\<close>

theorem last_match_wins:
  assumes "isEmptyValue (getProp constants ''FUNCTIONS_SRC'')"
  shows "getProp (addDefaultConstants fs constants root) ''FUNCTIONS_SRC'' =
           (if pathExists fs (root @ ''/'' @ ''netlify/functions'') then Str ''netlify/functions''
            else if pathExists fs (root @ ''/'' @ ''netlify-automatic-functions'')
              then Str ''netlify-automatic-functions''
            else getProp constants ''FUNCTIONS_SRC'')
         \<and> map (\<lambda>rule. addDefaultConstant fs constants (constantName rule) (defaultPath rule) root)
               DEFAULT_PATHS
             = [if pathExists fs (root @ ''/'' @ ''netlify-automatic-functions'')
                  then [(''FUNCTIONS_SRC'', Str ''netlify-automatic-functions'')] else [],
                if pathExists fs (root @ ''/'' @ ''netlify/functions'')
                  then [(''FUNCTIONS_SRC'', Str ''netlify/functions'')] else [],
                if isEmptyValue (getProp constants ''EDGE_FUNCTIONS_SRC'')
                    \<and> pathExists fs (root @ ''/'' @ ''netlify/edge-functions'')
                  then [(''EDGE_FUNCTIONS_SRC'', Str ''netlify/edge-functions'')] else []]"
  using assms
  by (simp add: getProp_addDefaultConstants DEFAULT_PATHS_def addDefaultConstant_def)

theorem last_match_wins_witness:
  "isEmptyValue (getProp [(''FUNCTIONS_SRC'', Str [])] ''FUNCTIONS_SRC'')
   \<and> getProp (addDefaultConstants bothFunctionDirs [(''FUNCTIONS_SRC'', Str [])] ''/site'')
        ''FUNCTIONS_SRC'' = Str ''netlify/functions''"
proof -
  have a: "isEmptyValue (getProp [(''FUNCTIONS_SRC'', Str [])] ''FUNCTIONS_SRC'')"
    by code_simp
  have b: "pathExists bothFunctionDirs (''/site'' @ ''/'' @ ''netlify/functions'')"
    by code_simp
  from last_match_wins [OF a, of bothFunctionDirs "''/site''"] a b
  show ?thesis by simp
qed

text \<open>
  C7. A constant that is unset (\<^verbatim>\<open>undefined\<close> or empty) and whose every candidate
  directory fails the access check, because it is missing or because the check itself
  fails, keeps its unset value through default detection; and the whole recomputation
  of a record whose path constants are strings or \<^verbatim>\<open>undefined\<close> then returns a record,
  without an exception, in which the constant is still unset.
\<close>

theorem unset_stays_unset:
  assumes "\<forall>rule \<in> set DEFAULT_PATHS.
             constantName rule = k \<longrightarrow> fs (root @ ''/'' @ defaultPath rule) \<noteq> AccessOk"
  shows "(isEmptyValue (getProp constants k) \<longrightarrow>
            getProp (addDefaultConstants fs constants root) k = getProp constants k)
         \<and> (isEmptyValue (getProp (constantsA base cfg) k) \<and> pathsAreStrings base \<longrightarrow>
              (\<exists>c'. addMutableConstants cwd fs base root cfg = Inr c'
                    \<and> getProp c' k = getProp (constantsA base cfg) k
                    \<and> isEmptyValue (getProp c' k)))"
proof -
  have keep: "getProp (addDefaultConstants fs c root) k = getProp c k" for c
    using assms by (simp add: getProp_addDefaultConstants DEFAULT_PATHS_def pathExists_iff)
  have "\<exists>c'. addMutableConstants cwd fs base root cfg = Inr c'
              \<and> getProp c' k = getProp (constantsA base cfg) k \<and> isEmptyValue (getProp c' k)"
    if e: "isEmptyValue (getProp (constantsA base cfg) k)" and t: "pathsAreStrings base"
  proof -
    from addMutableConstants_total [OF t] obtain c'
      where c': "addMutableConstants cwd fs base root cfg = Inr c'" by blast
    from addMutableConstants_getProp [OF c', of k]
    have "normalizePath cwd (getProp (constantsA base cfg) k) root k = Inr (getProp c' k)"
      by (simp add: keep)
    with e have "getProp c' k = getProp (constantsA base cfg) k"
      by (auto simp: normalizePath_def isEmptyValue_def)
    with c' e show ?thesis by simp
  qed
  with keep show ?thesis by blast
qed

theorem unset_stays_unset_witness:
  "noAccess (''/site'' @ ''/'' @ ''netlify-automatic-functions'') = AccessRejected ''EACCES''
   \<and> noAccess (''/site'' @ ''/'' @ ''netlify/functions'') = AccessRejected ''EACCES''
   \<and> isEmptyValue (getProp [] ''FUNCTIONS_SRC'')
   \<and> getProp (addDefaultConstants noAccess [] ''/site'') ''FUNCTIONS_SRC''
        = getProp [] ''FUNCTIONS_SRC''
   \<and> isEmptyValue (getProp (constantsA staleBase emptyConfig) ''FUNCTIONS_SRC'')
   \<and> pathsAreStrings staleBase
   \<and> (\<exists>c'. addMutableConstants ''/site'' noAccess staleBase ''/site'' emptyConfig = Inr c'
            \<and> getProp c' ''FUNCTIONS_SRC''
                 = getProp (constantsA staleBase emptyConfig) ''FUNCTIONS_SRC''
            \<and> isEmptyValue (getProp c' ''FUNCTIONS_SRC''))"
proof -
  have a: "\<forall>rule \<in> set DEFAULT_PATHS.
      constantName rule = ''FUNCTIONS_SRC'' \<longrightarrow>
        noAccess (''/site'' @ ''/'' @ defaultPath rule) \<noteq> AccessOk"
    by (simp add: noAccess_def)
  have b: "isEmptyValue (getProp [] ''FUNCTIONS_SRC'')" by code_simp
  have c: "isEmptyValue (getProp (constantsA staleBase emptyConfig) ''FUNCTIONS_SRC'')"
    by code_simp
  have d: "pathsAreStrings staleBase" by code_simp
  have e: "noAccess p = AccessRejected ''EACCES''" for p
    by (simp add: noAccess_def)
  note t = unset_stays_unset [OF a, of "[]" staleBase emptyConfig "''/site''"]
  from t b have f: "getProp (addDefaultConstants noAccess [] ''/site'') ''FUNCTIONS_SRC''
        = getProp [] ''FUNCTIONS_SRC''" by blast
  from t c d have g: "\<exists>c'. addMutableConstants ''/site'' noAccess staleBase ''/site'' emptyConfig
            = Inr c'
            \<and> getProp c' ''FUNCTIONS_SRC''
                 = getProp (constantsA staleBase emptyConfig) ''FUNCTIONS_SRC''
            \<and> isEmptyValue (getProp c' ''FUNCTIONS_SRC'')" by blast
  from b c d e f g show ?thesis by blast
qed

section \<open>Claims about normalization of the record\<close>

text \<open>
  C8. Normalization does nothing outside the set of path constants and on empty input:
  \<open>normalizePath\<close> returns the value it was given when the key is not a path constant,
  or the value is \<^verbatim>\<open>undefined\<close> or the empty string; the normalized record holds the
  same value under such a key; a record whose path constants are strings or
  \<^verbatim>\<open>undefined\<close> is normalized without an exception; and the keys named by the claim are
  not path constants.
\<close>

theorem normalization_frame:
  "(key \<notin> CONSTANT_PATHS \<or> v = Undefined \<or> v = Str [] \<longrightarrow>
      normalizePath cwd v root key = Inr v)
   \<and> (normalizeConstantsPaths cwd constants root = Inr c'
        \<and> (key \<notin> CONSTANT_PATHS \<or> isEmptyValue (getProp constants key)) \<longrightarrow>
          getProp c' key = getProp constants key)
   \<and> (pathsAreStrings constants \<longrightarrow> (\<exists>c'. normalizeConstantsPaths cwd constants root = Inr c'))
   \<and> {''IS_LOCAL'', ''SITE_ID'', ''NETLIFY_BUILD_VERSION'', ''NETLIFY_API_TOKEN'',
       ''NETLIFY_API_HOST''} \<inter> CONSTANT_PATHS = {}"
proof -
  have v: "normalizePath cwd v root key = Inr v"
    if "key \<notin> CONSTANT_PATHS \<or> v = Undefined \<or> v = Str []" for v
    using that by (auto simp: normalizePath_def)
  have "getProp c' key = getProp constants key"
    if n: "normalizeConstantsPaths cwd constants root = Inr c'"
      and k: "key \<notin> CONSTANT_PATHS \<or> isEmptyValue (getProp constants key)"
  proof -
    from k have "normalizePath cwd (getProp constants key) root key = Inr (getProp constants key)"
      by (intro v) (auto simp: isEmptyValue_def)
    with normalizeConstantsPaths_getProp [OF n, of key] show ?thesis by simp
  qed
  moreover have "{''IS_LOCAL'', ''SITE_ID'', ''NETLIFY_BUILD_VERSION'', ''NETLIFY_API_TOKEN'',
       ''NETLIFY_API_HOST''} \<inter> CONSTANT_PATHS = {}"
    by (simp add: CONSTANT_PATHS_def)
  ultimately show ?thesis
    using v normalizeConstantsPaths_total [of constants cwd root] by blast
qed

theorem normalization_frame_witness:
  "''IS_LOCAL'' \<notin> CONSTANT_PATHS
   \<and> normalizePath ''/site'' (Bool True) ''/site'' ''IS_LOCAL'' = Inr (Bool True)
   \<and> normalizePath ''/site'' (Str []) ''/site'' ''PUBLISH_DIR'' = Inr (Str [])
   \<and> pathsAreStrings staleBase
   \<and> normalizeConstantsPaths ''/site'' staleBase ''/site''
        = Inr [(''PUBLISH_DIR'', Str ''dist''), (''FUNCTIONS_SRC'', Str ''fns''),
               (''EDGE_FUNCTIONS_SRC'', Str ''edge''), (''PACKAGE_PATH'', Str ''/site/pkg''),
               (''IS_LOCAL'', Bool True)]
   \<and> getProp [(''PUBLISH_DIR'', Str ''dist''), (''FUNCTIONS_SRC'', Str ''fns''),
               (''EDGE_FUNCTIONS_SRC'', Str ''edge''), (''PACKAGE_PATH'', Str ''/site/pkg''),
               (''IS_LOCAL'', Bool True)] ''IS_LOCAL'' = getProp staleBase ''IS_LOCAL''"
proof -
  have a: "''IS_LOCAL'' \<notin> CONSTANT_PATHS" by (simp add: CONSTANT_PATHS_def)
  have b: "pathsAreStrings staleBase" by code_simp
  have c: "normalizeConstantsPaths ''/site'' staleBase ''/site''
        = Inr [(''PUBLISH_DIR'', Str ''dist''), (''FUNCTIONS_SRC'', Str ''fns''),
               (''EDGE_FUNCTIONS_SRC'', Str ''edge''), (''PACKAGE_PATH'', Str ''/site/pkg''),
               (''IS_LOCAL'', Bool True)]" by code_simp
  from a b c
    normalization_frame [of "''IS_LOCAL''" "Bool True" "''/site''" "''/site''" staleBase]
    normalization_frame [of "''PUBLISH_DIR''" "Str []" "''/site''" "''/site''" staleBase]
  show ?thesis by simp
qed

text \<open>
  C9. \<^verbatim>\<open>PACKAGE_PATH\<close> is not a path constant, so the normalized record holds it as it
  was supplied, and \<open>getConstants\<close> returns the package path it was given.
\<close>

theorem package_path_not_normalized:
  "''PACKAGE_PATH'' \<notin> CONSTANT_PATHS
   \<and> (normalizeConstantsPaths cwd constants root = Inr c' \<longrightarrow>
        getProp c' ''PACKAGE_PATH'' = getProp constants ''PACKAGE_PATH'')
   \<and> constantOf (getConstants cwd fs getCacheDir version inp) ''PACKAGE_PATH''
        = Inr (jsOf (packagePath inp))"
proof -
  have a: "''PACKAGE_PATH'' \<notin> CONSTANT_PATHS" by (simp add: CONSTANT_PATHS_def)
  then have n: "normalizePath cwd v r ''PACKAGE_PATH'' = Inr v" for v r
    by (simp add: normalizePath_def)
  have "getProp c' ''PACKAGE_PATH'' = getProp constants ''PACKAGE_PATH''"
    if "normalizeConstantsPaths cwd constants root = Inr c'"
    using normalizeConstantsPaths_getProp [OF that, of "''PACKAGE_PATH''"] by (simp add: n)
  moreover have "constantOf (getConstants cwd fs getCacheDir version inp) ''PACKAGE_PATH''
        = Inr (jsOf (packagePath inp))"
    by (simp add: constantOf_getConstants n getProp_addDefaultConstants getProp_constantsA
        baseConstants_def Let_def getProp_Cons)
  ultimately show ?thesis using a by blast
qed

theorem package_path_not_normalized_witness:
  "normalizeConstantsPaths ''/site'' staleBase ''/site''
        = Inr [(''PUBLISH_DIR'', Str ''dist''), (''FUNCTIONS_SRC'', Str ''fns''),
               (''EDGE_FUNCTIONS_SRC'', Str ''edge''), (''PACKAGE_PATH'', Str ''/site/pkg''),
               (''IS_LOCAL'', Bool True)]
   \<and> getProp [(''PUBLISH_DIR'', Str ''dist''), (''FUNCTIONS_SRC'', Str ''fns''),
               (''EDGE_FUNCTIONS_SRC'', Str ''edge''), (''PACKAGE_PATH'', Str ''/site/pkg''),
               (''IS_LOCAL'', Bool True)] ''PACKAGE_PATH'' = Str ''/site/pkg''
   \<and> getProp staleBase ''PACKAGE_PATH'' = Str ''/site/pkg''"
proof -
  have c: "normalizeConstantsPaths ''/site'' staleBase ''/site''
        = Inr [(''PUBLISH_DIR'', Str ''dist''), (''FUNCTIONS_SRC'', Str ''fns''),
               (''EDGE_FUNCTIONS_SRC'', Str ''edge''), (''PACKAGE_PATH'', Str ''/site/pkg''),
               (''IS_LOCAL'', Bool True)]" by code_simp
  have d: "getProp staleBase ''PACKAGE_PATH'' = Str ''/site/pkg''" by code_simp
  from c d package_path_not_normalized [of "''/site''" staleBase "''/site''"]
  show ?thesis by simp
qed

section \<open>Claims about recomputation and the base record\<close>



text \<open>
  C4, as stated, fails: in the mode \<^verbatim>\<open>buildbot\<close>, a functions distribution directory
  that lies under the build directory is returned relative to it, not unchanged.
\<close>

theorem dist_dirs_by_mode_counterexample:
  "mode remoteInsideInput = ''buildbot''
   \<and> functionsDistDir remoteInsideInput = ''/site/.netlify/functions''
   \<and> constantOf (getConstants ''/site'' noAccess stubCacheDir ''1.0.0'' remoteInsideInput)
        ''FUNCTIONS_DIST'' = Inr (Str ''.netlify/functions'')"
  by code_simp

text \<open>
  C4, amended. The record that \<open>getConstants\<close> builds before the recomputation pass
  holds, for \<^verbatim>\<open>FUNCTIONS_DIST\<close> and \<^verbatim>\<open>EDGE_FUNCTIONS_DIST\<close>, the supplied directory in
  the mode \<^verbatim>\<open>buildbot\<close> and the join of the package path (empty when absent) with the
  directory in any other mode; \<open>getConstants\<close> returns that value normalized against
  the build directory.
\<close>

theorem dist_dirs_by_mode:
  "getProp (baseConstants getCacheDir version inp) ''FUNCTIONS_DIST''
     = Str (if mode inp = ''buildbot'' then functionsDistDir inp
            else path_join [orEmpty (packagePath inp), functionsDistDir inp])
   \<and> getProp (baseConstants getCacheDir version inp) ''EDGE_FUNCTIONS_DIST''
     = Str (if mode inp = ''buildbot'' then edgeFunctionsDistDir inp
            else path_join [orEmpty (packagePath inp), edgeFunctionsDistDir inp])
   \<and> constantOf (getConstants cwd fs getCacheDir version inp) ''FUNCTIONS_DIST''
     = normalizePath cwd
         (Str (if mode inp = ''buildbot'' then functionsDistDir inp
               else path_join [orEmpty (packagePath inp), functionsDistDir inp]))
         (buildDir inp) ''FUNCTIONS_DIST''
   \<and> constantOf (getConstants cwd fs getCacheDir version inp) ''EDGE_FUNCTIONS_DIST''
     = normalizePath cwd
         (Str (if mode inp = ''buildbot'' then edgeFunctionsDistDir inp
               else path_join [orEmpty (packagePath inp), edgeFunctionsDistDir inp]))
         (buildDir inp) ''EDGE_FUNCTIONS_DIST''"
  by (simp add: constantOf_getConstants getProp_addDefaultConstants getProp_constantsA
      baseConstants_def Let_def getProp_Cons)

theorem dist_dirs_by_mode_witness:
  "constantOf (getConstants ''/site'' noAccess stubCacheDir ''1.0.0'' localInput)
     ''FUNCTIONS_DIST'' = Inr (Str ''pkg/tmp/dist'')
   \<and> path_join [''pkg'', ''/tmp/dist''] = ''pkg/tmp/dist''
   \<and> constantOf (getConstants ''/site'' noAccess stubCacheDir ''1.0.0'' remoteInput)
     ''FUNCTIONS_DIST'' = Inr (Str ''/tmp/dist'')"
proof -
  have a: "normalizePath ''/site''
         (Str (if mode localInput = ''buildbot'' then functionsDistDir localInput
               else path_join [orEmpty (packagePath localInput), functionsDistDir localInput]))
         (buildDir localInput) ''FUNCTIONS_DIST'' = Inr (Str ''pkg/tmp/dist'')"
    by code_simp
  have b: "normalizePath ''/site''
         (Str (if mode remoteInput = ''buildbot'' then functionsDistDir remoteInput
               else path_join [orEmpty (packagePath remoteInput), functionsDistDir remoteInput]))
         (buildDir remoteInput) ''FUNCTIONS_DIST'' = Inr (Str ''/tmp/dist'')"
    by code_simp
  have c: "path_join [''pkg'', ''/tmp/dist''] = ''pkg/tmp/dist''" by code_simp
  from a b c
    dist_dirs_by_mode [of stubCacheDir "''1.0.0''" localInput "''/site''" noAccess]
    dist_dirs_by_mode [of stubCacheDir "''1.0.0''" remoteInput "''/site''" noAccess]
  show ?thesis by simp
qed

section \<open>Canonical paths\<close>

text \<open>
  Splitting and joining are inverse on segments without a separator, and
  \<^verbatim>\<open>normalizeString\<close> leaves a list of segments that is a run of \<^verbatim>\<open>..\<close> (none when
  it may not go above the root) followed by plain segments. Such a list is a fixed
  point, which makes \<open>path_normalize\<close> idempotent and the result of
  \<open>path_relative\<close> canonical.
\<close>

lemma splitPath_not_Nil: "splitPath p \<noteq> []"
  by (induction p) (auto split: list.splits)

lemma splitPath_no_slash: "s \<in> set (splitPath p) \<Longrightarrow> CHR ''/'' \<notin> set s"
proof (induction p arbitrary: s)
  case Nil
  then show ?case by simp
next
  case (Cons c cs)
  show ?case
  proof (cases "c = CHR ''/''")
    case True
    with Cons show ?thesis by auto
  next
    case False
    obtain t ts where sp: "splitPath cs = t # ts"
      using splitPath_not_Nil [of cs] by (cases "splitPath cs") auto
    with Cons.prems False have "s = c # t \<or> s \<in> set ts" by simp
    with Cons.IH sp False show ?thesis by auto
  qed
qed

lemma splitPath_plain_prefix:
  "CHR ''/'' \<notin> set s \<Longrightarrow> splitPath (s @ CHR ''/'' # rest) = s # splitPath rest"
  by (induction s) auto

lemma splitPath_plain: "CHR ''/'' \<notin> set s \<Longrightarrow> splitPath s = [s]"
  by (induction s) auto

lemma splitPath_joinSegs_append:
  "segs \<noteq> [] \<Longrightarrow> \<forall>s \<in> set segs. CHR ''/'' \<notin> set s \<Longrightarrow>
   splitPath (joinSegs segs @ CHR ''/'' # rest) = segs @ splitPath rest"
proof (induction segs rule: joinSegs.induct)
  case 1
  then show ?case by simp
next
  case (2 s)
  then show ?case by (simp add: splitPath_plain_prefix)
next
  case (3 s t ss)
  then show ?case by (simp add: splitPath_plain_prefix)
qed

lemma splitPath_joinSegs:
  "segs \<noteq> [] \<Longrightarrow> \<forall>s \<in> set segs. CHR ''/'' \<notin> set s \<Longrightarrow> splitPath (joinSegs segs) = segs"
proof (induction segs rule: joinSegs.induct)
  case 1
  then show ?case by simp
next
  case (2 s)
  then show ?case by (simp add: splitPath_plain)
next
  case (3 s t ss)
  then show ?case by (simp add: splitPath_plain_prefix)
qed

lemma joinSegs_Nil_iff: "\<forall>s \<in> set segs. s \<noteq> [] \<Longrightarrow> joinSegs segs = [] \<longleftrightarrow> segs = []"
  by (induction segs rule: joinSegs.induct) auto

lemma hd_joinSegs: "s \<noteq> [] \<Longrightarrow> hd (joinSegs (s # ss)) = hd s"
  by (cases ss) auto

lemma joinSegs_not_Nil: "segs \<noteq> [] \<Longrightarrow> last segs \<noteq> [] \<Longrightarrow> joinSegs segs \<noteq> []"
  by (induction segs rule: joinSegs.induct) auto

lemma last_joinSegs:
  "segs \<noteq> [] \<Longrightarrow> last segs \<noteq> [] \<Longrightarrow> last (joinSegs segs) = last (last segs)"
proof (induction segs rule: joinSegs.induct)
  case 1
  then show ?case by simp
next
  case (2 s)
  then show ?case by simp
next
  case (3 s t ss)
  then have "joinSegs (t # ss) \<noteq> []" by (intro joinSegs_not_Nil) auto
  with 3 show ?case by simp
qed

lemma normStep_empty [simp]: "normStep a res [] = res"
  by (simp add: normStep_def)

lemma normStep_plain: "plainSegment seg \<Longrightarrow> normStep a res seg = res @ [seg]"
  by (simp add: normStep_def plainSegment_def)

lemma foldl_normStep_plain:
  "list_all plainSegment ns \<Longrightarrow> foldl (normStep a) acc ns = acc @ ns"
  by (induction ns arbitrary: acc) (simp_all add: normStep_plain)

lemma foldl_normStep_dotdots:
  "foldl (normStep True) (replicate m ''..'') (replicate n ''..'') = replicate (m + n) ''..''"
proof (induction n arbitrary: m)
  case 0
  then show ?case by simp
next
  case (Suc n)
  have "normStep True (replicate m ''..'') ''..'' = replicate (Suc m) ''..''"
    by (cases m) (simp_all add: normStep_def replicate_append_same)
  with Suc [of "Suc m"] show ?case by simp
qed

lemma foldl_normStep_canonical:
  assumes "list_all plainSegment ns" and "a \<or> n = 0"
  shows "foldl (normStep a) [] (replicate n ''..'' @ ns) = replicate n ''..'' @ ns"
proof (cases a)
  case True
  have "foldl (normStep True) [] (replicate n ''..'') = replicate n ''..''"
    using foldl_normStep_dotdots [of 0 n] by simp
  with True assms show ?thesis by (simp add: foldl_normStep_plain)
next
  case False
  with assms show ?thesis by (simp add: foldl_normStep_plain)
qed

lemma normStep_canonical:
  assumes "res = replicate n ''..'' @ ns" and "list_all plainSegment ns" and "a \<or> n = 0"
    and "CHR ''/'' \<notin> set seg"
  shows "\<exists>n' ns'. normStep a res seg = replicate n' ''..'' @ ns'
            \<and> list_all plainSegment ns' \<and> (a \<or> n' = 0)"
proof -
  consider (skip) "seg = [] \<or> seg = ''.''" | (up) "seg = ''..''" | (plain) "plainSegment seg"
    using assms(4) by (auto simp: plainSegment_def)
  then show ?thesis
  proof cases
    case skip
    with assms show ?thesis by (auto simp: normStep_def)
  next
    case plain
    then have "normStep a res seg = replicate n ''..'' @ (ns @ [seg])"
      by (simp add: normStep_plain assms(1))
    moreover have "list_all plainSegment (ns @ [seg])"
      using assms(2) plain by simp
    ultimately show ?thesis using assms(3) by blast
  next
    case up
    show ?thesis
    proof (cases "ns = []")
      case True
      then have r: "res = replicate n ''..''" using assms(1) by simp
      then have "res = [] \<or> last res = ''..''" by (cases n) auto
      then have "normStep a res seg = (if a then replicate (Suc n) ''..'' else res)"
        using up r by (auto simp: normStep_def replicate_append_same)
      then show ?thesis
      proof (cases a)
        case True
        with \<open>normStep a res seg = (if a then replicate (Suc n) ''..'' else res)\<close>
        have "normStep a res seg = replicate (Suc n) ''..'' @ []
                \<and> list_all plainSegment [] \<and> (a \<or> Suc n = 0)" by simp
        then show ?thesis by blast
      next
        case False
        with \<open>normStep a res seg = (if a then replicate (Suc n) ''..'' else res)\<close> r assms(3)
        have "normStep a res seg = replicate n ''..'' @ []
                \<and> list_all plainSegment [] \<and> (a \<or> n = 0)" by simp
        then show ?thesis by blast
      qed
    next
      case False
      then have "last res = last ns" and "res \<noteq> []" using assms(1) by simp_all
      moreover from False assms(2) have "plainSegment (last ns)"
        by (simp add: list_all_iff)
      ultimately have "normStep a res seg = butlast res"
        using up by (auto simp: normStep_def plainSegment_def)
      also have "\<dots> = replicate n ''..'' @ butlast ns"
        using False assms(1) by (simp add: butlast_append)
      finally have "normStep a res seg = replicate n ''..'' @ butlast ns" .
      moreover have "list_all plainSegment (butlast ns)"
        using assms(2) by (auto simp: list_all_iff dest: in_set_butlastD)
      ultimately show ?thesis using assms(3) by blast
    qed
  qed
qed

lemma foldl_normStep_canonical_result:
  assumes "\<forall>s \<in> set segs. CHR ''/'' \<notin> set s"
    and "res = replicate n ''..'' @ ns" and "list_all plainSegment ns" and "a \<or> n = 0"
  shows "\<exists>n' ns'. foldl (normStep a) res segs = replicate n' ''..'' @ ns'
            \<and> list_all plainSegment ns' \<and> (a \<or> n' = 0)"
  using assms
proof (induction segs arbitrary: res n ns)
  case Nil
  then show ?case by auto
next
  case (Cons seg segs)
  from Cons.prems have "CHR ''/'' \<notin> set seg" by simp
  from normStep_canonical [OF Cons.prems(2) Cons.prems(3) Cons.prems(4) this]
  obtain n' ns' where "normStep a res seg = replicate n' ''..'' @ ns'"
    and "list_all plainSegment ns'" and "a \<or> n' = 0" by blast
  with Cons.IH [of "normStep a res seg" n' ns'] Cons.prems(1) show ?case by simp
qed

lemma normalized_segments:
  "\<exists>n ns. foldl (normStep a) [] (splitPath p) = replicate n ''..'' @ ns
     \<and> list_all plainSegment ns \<and> (a \<or> n = 0)"
  using foldl_normStep_canonical_result [of "splitPath p" "[]" 0 "[]" a]
  by (simp add: splitPath_no_slash)

lemma plainSegment_simple: "plainSegment s \<Longrightarrow> s \<noteq> [] \<and> CHR ''/'' \<notin> set s"
  by (simp add: plainSegment_def)

lemma canonical_segments_plain:
  assumes "list_all plainSegment ns"
  shows "\<forall>s \<in> set (replicate n ''..'' @ ns). s \<noteq> [] \<and> CHR ''/'' \<notin> set s"
proof
  fix s assume "s \<in> set (replicate n ''..'' @ ns)"
  then consider "s = ''..''" | "s \<in> set ns" by auto
  then show "s \<noteq> [] \<and> CHR ''/'' \<notin> set s"
  proof cases
    case 1
    then show ?thesis by simp
  next
    case 2
    with assms have "plainSegment s" by (simp add: list_all_iff)
    then show ?thesis by (rule plainSegment_simple)
  qed
qed

lemma path_normalize_unfold:
  assumes "q \<noteq> []" and "normalizeString q (hd q \<noteq> CHR ''/'') = r" and "r \<noteq> []"
  shows "path_normalize q =
           (if hd q = CHR ''/'' then ''/'' else []) @ r @ (if last q = CHR ''/'' then ''/'' else [])"
  using assms by (simp add: path_normalize_def Let_def)

lemma path_normalize_canonical:
  assumes ns: "list_all plainSegment ns" and n: "\<not> ab \<or> n = 0"
    and segs: "segs = replicate n ''..'' @ ns" and ne: "segs \<noteq> []"
  shows "path_normalize ((if ab then ''/'' else []) @ joinSegs segs @ (if tr then ''/'' else []))
           = (if ab then ''/'' else []) @ joinSegs segs @ (if tr then ''/'' else [])"
proof -
  define r where "r = joinSegs segs"
  define q where "q = (if ab then ''/'' else []) @ r @ (if tr then ''/'' else [])"
  from canonical_segments_plain [OF ns, of n] segs
  have ok: "\<forall>s \<in> set segs. s \<noteq> [] \<and> CHR ''/'' \<notin> set s" by simp
  then have nosl: "\<forall>s \<in> set segs. CHR ''/'' \<notin> set s" by simp
  from ne ok have lastne: "last segs \<noteq> []" by simp
  have rne: "r \<noteq> []" unfolding r_def using ne lastne by (rule joinSegs_not_Nil)
  have hdr: "hd r \<noteq> CHR ''/''"
  proof -
    obtain s ss where c: "segs = s # ss" using ne by (cases segs) auto
    with ok have s: "s \<noteq> []" "CHR ''/'' \<notin> set s" by simp_all
    then have "hd s \<noteq> CHR ''/''" by (cases s) auto
    with c s(1) show ?thesis by (simp add: r_def hd_joinSegs)
  qed
  have lastr: "last r \<noteq> CHR ''/''"
  proof -
    from ne ok have "CHR ''/'' \<notin> set (last segs)" by simp
    moreover from lastne have "last (last segs) \<in> set (last segs)" by (rule last_in_set)
    ultimately have "last (last segs) \<noteq> CHR ''/''" by auto
    with ne lastne show ?thesis by (simp add: r_def last_joinSegs)
  qed
  have qne: "q \<noteq> []" using rne by (simp add: q_def)
  have hdq: "(hd q = CHR ''/'') = ab" using rne hdr by (simp add: q_def)
  have lastq: "(last q = CHR ''/'') = tr" using rne lastr by (simp add: q_def)
  have sp1: "splitPath r = segs"
    unfolding r_def using ne nosl by (rule splitPath_joinSegs)
  have sp2: "splitPath (r @ ''/'') = segs @ [[]]"
    unfolding r_def using splitPath_joinSegs_append [OF ne nosl, of "[]"] by simp
  have split: "splitPath q = (if ab then [[]] else []) @ segs @ (if tr then [[]] else [])"
    by (cases ab; cases tr) (simp_all add: q_def sp1 sp2)
  have fold0: "foldl (normStep (\<not> ab)) [] segs = segs"
    unfolding segs using ns n by (intro foldl_normStep_canonical) auto
  have fold: "foldl (normStep (\<not> ab)) [] (splitPath q) = segs"
    unfolding split using fold0 by (cases ab; cases tr) simp_all
  have nq: "normalizeString q (hd q \<noteq> CHR ''/'') = r"
    unfolding normalizeString_def hdq fold r_def ..
  from path_normalize_unfold [OF qne nq rne] have "path_normalize q = q"
    unfolding hdq lastq by (simp add: q_def)
  then show ?thesis unfolding q_def r_def .
qed

lemma path_normalize_not_Nil: "path_normalize p \<noteq> []"
  by (auto simp: path_normalize_def Let_def)

lemma path_normalize_idem: "path_normalize (path_normalize p) = path_normalize p"
proof (cases "p = []")
  case True
  have "path_normalize ''.'' = ''.''" by code_simp
  with True show ?thesis by (simp add: path_normalize_def)
next
  case False
  define ab where "ab = (hd p = CHR ''/'')"
  define tr where "tr = (last p = CHR ''/'')"
  define segs where "segs = foldl (normStep (\<not> ab)) [] (splitPath p)"
  from normalized_segments [of "\<not> ab" p] obtain n ns
    where segs': "segs = replicate n ''..'' @ ns" and ns: "list_all plainSegment ns"
      and n: "\<not> ab \<or> n = 0"
    unfolding segs_def by blast
  have ns_eq: "normalizeString p (\<not> ab) = joinSegs segs"
    by (simp add: normalizeString_def segs_def)
  show ?thesis
  proof (cases "segs = []")
    case True
    then have "path_normalize p = (if ab then ''/'' else if tr then ''./'' else ''.'')"
      using False ns_eq by (simp add: path_normalize_def Let_def ab_def tr_def)
    moreover have "path_normalize ''/'' = ''/''" "path_normalize ''./'' = ''./''"
      "path_normalize ''.'' = ''.''" by code_simp+
    ultimately show ?thesis by simp
  next
    case ne: False
    from canonical_segments_plain [OF ns, of n] segs'
    have "\<forall>s \<in> set segs. s \<noteq> []" by simp
    with ne have "last segs \<noteq> []" by simp
    with ne have "joinSegs segs \<noteq> []" by (rule joinSegs_not_Nil)
    then have "path_normalize p
                 = (if ab then ''/'' else []) @ joinSegs segs @ (if tr then ''/'' else [])"
      using False ns_eq by (simp add: path_normalize_def Let_def ab_def tr_def)
    with path_normalize_canonical [OF ns n segs' ne, of tr] show ?thesis by simp
  qed
qed

lemma path_resolve_absolute:
  assumes "x \<noteq> []" and "hd x = CHR ''/''"
  shows "\<exists>ns. list_all plainSegment ns \<and> path_resolve cwd [x] = CHR ''/'' # joinSegs ns"
proof -
  have r: "resolveFrom (rev [x] @ [cwd]) [] = (x @ ''/'', True)"
    using assms by (simp add: Let_def)
  from normalized_segments [of False "x @ ''/''"] obtain ns
    where "foldl (normStep False) [] (splitPath (x @ ''/'')) = ns" and "list_all plainSegment ns"
    by auto
  then have "list_all plainSegment ns \<and> path_resolve cwd [x] = CHR ''/'' # joinSegs ns"
    unfolding path_resolve_def r by (simp add: normalizeString_def)
  then show ?thesis by blast
qed

lemma pathSegments_rooted:
  assumes "list_all plainSegment ns"
  shows "pathSegments (CHR ''/'' # joinSegs ns) = ns"
proof (cases "ns = []")
  case True
  then show ?thesis by (simp add: pathSegments_def)
next
  case False
  from assms have ok: "\<forall>s \<in> set ns. s \<noteq> [] \<and> CHR ''/'' \<notin> set s"
    by (simp add: list_all_iff plainSegment_simple)
  then have "splitPath (joinSegs ns) = ns"
    using False by (intro splitPath_joinSegs) auto
  moreover from ok have "filter (\<lambda>seg. seg \<noteq> []) ns = ns"
    by (simp add: filter_id_conv)
  ultimately show ?thesis by (simp add: pathSegments_def)
qed

lemma dropCommon_suffix:
  "dropCommon xs ys = (up, down) \<Longrightarrow> set down \<subseteq> set ys"
  by (induction xs ys rule: dropCommon.induct) (auto split: if_splits)

lemma dropCommon_Nil: "dropCommon xs ys = ([], []) \<Longrightarrow> xs = ys"
  by (induction xs ys rule: dropCommon.induct) (auto split: if_splits)

lemma joinSegs_hd:
  assumes "segs \<noteq> []" and "\<forall>s \<in> set segs. s \<noteq> [] \<and> CHR ''/'' \<notin> set s"
  shows "joinSegs segs \<noteq> [] \<and> hd (joinSegs segs) \<noteq> CHR ''/''"
proof -
  obtain s ss where c: "segs = s # ss" using assms(1) by (cases segs) auto
  with assms(2) have s: "s \<noteq> []" "CHR ''/'' \<notin> set s" by simp_all
  then have "hd s \<noteq> CHR ''/''" by (cases s) auto
  moreover from c s(1) have "joinSegs segs \<noteq> []" by (cases ss) auto
  ultimately show ?thesis using c s(1) by (simp add: hd_joinSegs)
qed

lemma pathSegments_simple: "s \<in> set (pathSegments p) \<Longrightarrow> s \<noteq> [] \<and> CHR ''/'' \<notin> set s"
  by (auto simp: pathSegments_def dest: splitPath_no_slash)

lemma path_relative_not_rooted:
  "path_relative cwd from to = [] \<or> hd (path_relative cwd from to) \<noteq> CHR ''/''"
proof -
  obtain up down where d: "dropCommon (pathSegments (path_resolve cwd [from]))
      (pathSegments (path_resolve cwd [to])) = (up, down)"
    by (cases "dropCommon (pathSegments (path_resolve cwd [from]))
      (pathSegments (path_resolve cwd [to]))") auto
  define segs where "segs = replicate (length up) ''..'' @ down"
  from dropCommon_suffix [OF d] have "\<forall>s \<in> set down. s \<noteq> [] \<and> CHR ''/'' \<notin> set s"
    by (auto dest: pathSegments_simple)
  then have ok: "\<forall>s \<in> set segs. s \<noteq> [] \<and> CHR ''/'' \<notin> set s"
    by (auto simp: segs_def)
  have "joinSegs segs = [] \<or> hd (joinSegs segs) \<noteq> CHR ''/''"
  proof (cases "segs = []")
    case True
    then show ?thesis by simp
  next
    case False
    from joinSegs_hd [OF False ok] show ?thesis by simp
  qed
  then show ?thesis
    by (simp add: path_relative_def Let_def d segs_def)
qed

lemma path_relative_absolute:
  assumes "from \<noteq> []" and "hd from = CHR ''/''" and "to \<noteq> []" and "hd to = CHR ''/''"
  shows "path_relative cwd from to = []
         \<or> path_normalize (path_relative cwd from to) = path_relative cwd from to"
proof -
  from path_resolve_absolute [OF assms(1,2), of cwd] obtain fs
    where fs: "list_all plainSegment fs" and fr: "path_resolve cwd [from] = CHR ''/'' # joinSegs fs"
    by blast
  from path_resolve_absolute [OF assms(3,4), of cwd] obtain ts
    where ts: "list_all plainSegment ts" and tr: "path_resolve cwd [to] = CHR ''/'' # joinSegs ts"
    by blast
  obtain up down where d: "dropCommon fs ts = (up, down)"
    by (cases "dropCommon fs ts") auto
  define segs where "segs = replicate (length up) ''..'' @ down"
  from dropCommon_suffix [OF d] ts have down: "list_all plainSegment down"
    by (auto simp: list_all_iff)
  show ?thesis
  proof (cases "from = to \<or> fs = ts")
    case True
    then show ?thesis by (auto simp: path_relative_def Let_def fr tr)
  next
    case False
    have ne: "segs \<noteq> []"
    proof
      assume "segs = []"
      then have "up = []" "down = []" by (simp_all add: segs_def)
      with d have "fs = ts" by (simp add: dropCommon_Nil)
      with False show False by simp
    qed
    have rel: "path_relative cwd from to = (if joinSegs fs = joinSegs ts then [] else joinSegs segs)"
      using False
      by (simp add: path_relative_def Let_def fr tr pathSegments_rooted [OF fs]
          pathSegments_rooted [OF ts] d segs_def)
    from path_normalize_canonical [OF down _ segs_def ne, of False False]
    have "path_normalize (joinSegs segs) = joinSegs segs" by simp
    with rel show ?thesis by simp
  qed
qed

text \<open>
  Resolving the result of \<open>path_relative\<close> against its first argument leads to the
  second argument: the result is a path relative to the first.
\<close>

lemma splitPath_append:
  "splitPath (a @ CHR ''/'' # b) = splitPath a @ splitPath b"
proof (induction a)
  case Nil
  then show ?case by simp
next
  case (Cons c cs)
  obtain t ts where sp: "splitPath cs = t # ts"
    using splitPath_not_Nil [of cs] by (cases "splitPath cs") auto
  with Cons show ?case by simp
qed

lemma resolveFrom_acc:
  "resolveFrom xs acc = (fst (resolveFrom xs []) @ acc, snd (resolveFrom xs []))"
proof (induction xs arbitrary: acc)
  case Nil
  then show ?case by simp
next
  case (Cons x xs)
  show ?case
  proof (cases "x = []")
    case True
    with Cons [of acc] show ?thesis by simp
  next
    case False
    show ?thesis
    proof (cases "hd x = CHR ''/''")
      case True
      with False show ?thesis by (simp add: Let_def)
    next
      case rel: False
      from Cons [of "x @ CHR ''/'' # acc"] Cons [of "x @ ''/''"] False rel
      show ?thesis by (simp add: Let_def)
    qed
  qed
qed

lemma resolveFrom_single:
  assumes "path_isAbsolute cwd \<or> path_isAbsolute x"
  shows "\<exists>X. resolveFrom [x, cwd] [] = (X @ ''/'', True)"
proof (cases "path_isAbsolute x")
  case True
  then have "resolveFrom [x, cwd] [] = (x @ ''/'', True)"
    by (simp add: path_isAbsolute_def Let_def)
  then show ?thesis by blast
next
  case False
  with assms have "path_isAbsolute cwd" by blast
  then have c: "cwd \<noteq> []" "hd cwd = CHR ''/''" by (simp_all add: path_isAbsolute_def)
  show ?thesis
  proof (cases "x = []")
    case True
    with c have "resolveFrom [x, cwd] [] = (cwd @ ''/'', True)" by (simp add: Let_def)
    then show ?thesis by blast
  next
    case ne: False
    with False have "hd x \<noteq> CHR ''/''" by (simp add: path_isAbsolute_def)
    with ne c have "resolveFrom [x, cwd] [] = ((cwd @ ''/'' @ x) @ ''/'', True)"
      by (simp add: Let_def)
    then show ?thesis by blast
  qed
qed

lemma foldl_normStep_pop:
  "list_all plainSegment u \<Longrightarrow>
   foldl (normStep a) (c @ u) (replicate (length u) ''..'') = c"
proof (induction u rule: rev_induct)
  case Nil
  then show ?case by simp
next
  case (snoc x u)
  then have px: "plainSegment x" and u: "list_all plainSegment u"
    by simp_all
  from px have x: "x \<noteq> ''..''" by (simp add: plainSegment_def)
  from x have "normStep a (c @ u @ [x]) ''..'' = c @ u"
    by (simp add: normStep_def butlast_append)
  with snoc.IH [OF u] show ?case by simp
qed

lemma dropCommon_decompose:
  "dropCommon xs ys = (up, down) \<Longrightarrow> \<exists>c. xs = c @ up \<and> ys = c @ down"
proof (induction xs ys rule: dropCommon.induct)
  case (1 a as b bs)
  show ?case
  proof (cases "a = b")
    case True
    with 1 obtain c where "as = c @ up" "bs = c @ down" by auto
    with True have "a # as = (a # c) @ up \<and> b # bs = (a # c) @ down" by simp
    then show ?thesis by blast
  next
    case False
    with 1 show ?thesis by auto
  qed
qed auto

lemma path_resolve_form:
  assumes "resolveFrom (rev args @ [cwd]) [] = (X @ ''/'', True)"
  shows "path_resolve cwd args = CHR ''/'' # joinSegs (foldl (normStep False) [] (splitPath X))"
proof -
  have "splitPath (X @ ''/'') = splitPath X @ [[]]"
    using splitPath_append [of X "[]"] by simp
  then show ?thesis
    by (simp add: path_resolve_def assms normalizeString_def)
qed

lemma normalized_plain:
  "list_all plainSegment (foldl (normStep False) [] (splitPath p))"
  using normalized_segments [of False p] by auto

lemma path_relative_resolves_back:
  assumes "path_isAbsolute cwd \<or> (path_isAbsolute from \<and> path_isAbsolute to)"
  shows "path_resolve cwd [from, path_relative cwd from to] = path_resolve cwd [to]"
proof -
  from assms have "path_isAbsolute cwd \<or> path_isAbsolute from" by blast
  from resolveFrom_single [OF this] obtain X
    where X: "resolveFrom [from, cwd] [] = (X @ ''/'', True)" by blast
  from assms have "path_isAbsolute cwd \<or> path_isAbsolute to" by blast
  from resolveFrom_single [OF this] obtain Y
    where Y: "resolveFrom [to, cwd] [] = (Y @ ''/'', True)" by blast
  define fs where "fs = foldl (normStep False) [] (splitPath X)"
  define ts where "ts = foldl (normStep False) [] (splitPath Y)"
  have pfs: "list_all plainSegment fs" and pts: "list_all plainSegment ts"
    unfolding fs_def ts_def by (rule normalized_plain)+
  have fr: "path_resolve cwd [from] = CHR ''/'' # joinSegs fs"
    unfolding fs_def using X by (intro path_resolve_form) simp
  have tr: "path_resolve cwd [to] = CHR ''/'' # joinSegs ts"
    unfolding ts_def using Y by (intro path_resolve_form) simp
  have skip: "path_resolve cwd [from, []] = path_resolve cwd [from]"
    by (simp add: path_resolve_def)
  obtain up down where d: "dropCommon fs ts = (up, down)"
    by (cases "dropCommon fs ts") auto
  define segs where "segs = replicate (length up) ''..'' @ down"
  define r where "r = path_relative cwd from to"
  have rel: "r = (if from = to \<or> joinSegs fs = joinSegs ts then [] else joinSegs segs)"
    by (simp add: r_def path_relative_def Let_def fr tr pathSegments_rooted [OF pfs]
        pathSegments_rooted [OF pts] d segs_def)
  show ?thesis
  proof (cases "from = to \<or> joinSegs fs = joinSegs ts")
    case True
    with rel have "r = []" by simp
    moreover have "path_resolve cwd [from] = path_resolve cwd [to]"
    proof (cases "from = to")
      case True
      then show ?thesis by simp
    next
      case False
      with \<open>from = to \<or> joinSegs fs = joinSegs ts\<close> show ?thesis by (simp add: fr tr)
    qed
    ultimately show ?thesis using skip by (simp add: r_def)
  next
    case False
    with rel have r: "r = joinSegs segs" by simp
    from False have "fs \<noteq> ts" by auto
    have ne: "segs \<noteq> []"
    proof
      assume "segs = []"
      then have "up = []" "down = []" by (simp_all add: segs_def)
      with d have "fs = ts" by (simp add: dropCommon_Nil)
      with \<open>fs \<noteq> ts\<close> show False by simp
    qed
    from dropCommon_suffix [OF d] pts have pdown: "list_all plainSegment down"
      by (auto simp: list_all_iff)
    from canonical_segments_plain [OF pdown, of "length up"]
    have ok: "\<forall>s \<in> set segs. s \<noteq> [] \<and> CHR ''/'' \<notin> set s" by (simp add: segs_def)
    from joinSegs_hd [OF ne ok] r have rne: "r \<noteq> []" and rhd: "hd r \<noteq> CHR ''/''"
      by simp_all
    from ok have "\<forall>s \<in> set segs. CHR ''/'' \<notin> set s" by simp
    from splitPath_joinSegs [OF ne this] r have sp: "splitPath r = segs" by simp
    from dropCommon_decompose [OF d] obtain c where c: "fs = c @ up" "ts = c @ down"
      by blast
    from pfs c have pup: "list_all plainSegment up" by simp
    have "resolveFrom [r, from, cwd] [] = resolveFrom [from, cwd] (r @ ''/'')"
      using rne rhd by (simp add: Let_def)
    also have "\<dots> = ((X @ ''/'') @ r @ ''/'', True)"
      using resolveFrom_acc [of "[from, cwd]" "r @ ''/''"] X by simp
    finally have S: "resolveFrom (rev [from, r] @ [cwd]) [] = ((X @ ''/'' @ r) @ ''/'', True)"
      by simp
    have "splitPath (X @ ''/'' @ r) = splitPath X @ segs"
      using splitPath_append [of X r] sp by simp
    then have "foldl (normStep False) [] (splitPath (X @ ''/'' @ r))
                 = foldl (normStep False) fs segs"
      by (simp add: fs_def)
    also have "\<dots> = foldl (normStep False) (foldl (normStep False) (c @ up)
                        (replicate (length up) ''..'')) down"
      by (simp add: segs_def c)
    also have "\<dots> = foldl (normStep False) c down"
      by (simp add: foldl_normStep_pop [OF pup])
    also have "\<dots> = ts"
      by (simp add: foldl_normStep_plain [OF pdown] c)
    finally have "foldl (normStep False) [] (splitPath (X @ ''/'' @ r)) = ts" .
    with path_resolve_form [OF S] have "path_resolve cwd [from, r] = CHR ''/'' # joinSegs ts"
      by simp
    with tr show ?thesis by (simp add: r_def)
  qed
qed

section \<open>Claims about the normalization of one path\<close>

text \<open>
  C6, as stated, fails: a build root that is not in canonical form, such as
  \<^verbatim>\<open>/site//app\<close>, need not collapse to \<^verbatim>\<open>.\<close>, because the canonical path is
  compared with the build root as given.
\<close>

theorem root_collapse_counterexample:
  "normalizePath ''/site'' (Str ''/site//app'') ''/site//app'' ''PUBLISH_DIR''
     = Inr (Str ''/site/app'')"
  by code_simp

text \<open>
  C6, amended. For every build root that is its own canonical form and every path
  constant, normalizing the build root yields \<^verbatim>\<open>.\<close>.
\<close>

theorem root_collapse:
  assumes "key \<in> CONSTANT_PATHS" and "path_normalize root = root"
  shows "normalizePath cwd (Str root) root key = Inr (Str ''.'')"
proof -
  from assms(2) have "root \<noteq> []"
    by (auto simp: path_normalize_def)
  with assms show ?thesis
    by (simp add: normalizePath_def)
qed

theorem root_collapse_witness:
  "''PUBLISH_DIR'' \<in> CONSTANT_PATHS \<and> path_normalize ''/site'' = ''/site''
   \<and> normalizePath ''/site'' (Str ''/site'') ''/site'' ''PUBLISH_DIR'' = Inr (Str ''.'')"
proof -
  have a: "''PUBLISH_DIR'' \<in> CONSTANT_PATHS" by (simp add: CONSTANT_PATHS_def)
  have b: "path_normalize ''/site'' = ''/site''" by code_simp
  from root_collapse [OF a b, of "''/site''"] a b show ?thesis by simp
qed

text \<open>
  C2, as stated, fails: for a relative build root, a path that repeats the root below
  itself loses one more leading segment each time it is normalized.
\<close>

theorem normalizePath_idempotent_counterexample:
  "normalizePath ''/site'' (Str ''app/app/out'') ''app'' ''PUBLISH_DIR'' = Inr (Str ''app/out'')
   \<and> normalizePath ''/site'' (Str ''app/out'') ''app'' ''PUBLISH_DIR'' = Inr (Str ''out'')"
  by code_simp

text \<open>
  C2, amended. For every absolute build root, every path and every key, normalizing
  returns a value, and normalizing what \<open>normalizePath\<close> returned gives the same
  value again.
\<close>

theorem normalizePath_idempotent:
  assumes "root \<noteq> []" and "hd root = CHR ''/''"
  shows "(\<exists>r. normalizePath cwd (Str p) root key = Inr r)
         \<and> (\<forall>v r. normalizePath cwd v root key = Inr r \<longrightarrow> normalizePath cwd r root key = Inr r)"
proof -
  have rooted: "hd q = CHR ''/'' \<and> q \<noteq> []" if "prefix root q" for q
    using that assms by (cases root; cases q) auto
  have second: "normalizePath cwd (Str r) root key = Inr (Str r)"
    if "r = [] \<or> (path_normalize r = r \<and> r \<noteq> root \<and> \<not> prefix root r)" for r
    using that by (auto simp: normalizePath_def Let_def)
  have idem: "normalizePath cwd r root key = Inr r"
    if n: "normalizePath cwd v root key = Inr r" for v r
  proof (cases "v = Undefined \<or> v = Str [] \<or> key \<notin> CONSTANT_PATHS")
    case True
    with n have "r = v" by (auto simp: normalizePath_def)
    with True show ?thesis by (auto simp: normalizePath_def)
  next
    case False
    with n obtain p' where v: "v = Str p'" and p': "p' \<noteq> []"
      by (cases v) (auto simp: normalizePath_def)
    define pathA where "pathA = path_normalize p'"
    have canon: "path_normalize pathA = pathA"
      by (simp add: pathA_def path_normalize_idem)
    have pne: "pathA \<noteq> []" by (simp add: pathA_def path_normalize_not_Nil)
    from n False v have r: "r = (if pathA = root then Str ''.''
        else if prefix root pathA then Str (path_relative cwd root pathA) else Str pathA)"
      by (auto simp: normalizePath_def Let_def pathA_def)
    consider (eq) "pathA = root" | (inside) "pathA \<noteq> root" "prefix root pathA"
      | (outside) "pathA \<noteq> root" "\<not> prefix root pathA" by blast
    then show ?thesis
    proof cases
      case eq
      have "path_normalize ''.'' = ''.''" by code_simp
      moreover have "''.'' \<noteq> root" "\<not> prefix root ''.''"
        using assms rooted [of "''.''"] by auto
      ultimately have "normalizePath cwd (Str ''.'') root key = Inr (Str ''.'')"
        by (intro second) simp
      with r eq show ?thesis by simp
    next
      case inside
      define rel where "rel = path_relative cwd root pathA"
      from rooted [OF inside(2)] have a: "pathA \<noteq> []" "hd pathA = CHR ''/''" by simp_all
      from path_relative_absolute [OF assms a, of cwd]
      have c: "rel = [] \<or> path_normalize rel = rel" by (simp add: rel_def)
      from path_relative_not_rooted [of cwd root pathA]
      have h: "rel = [] \<or> hd rel \<noteq> CHR ''/''" by (simp add: rel_def)
      have "rel = [] \<or> (path_normalize rel = rel \<and> rel \<noteq> root \<and> \<not> prefix root rel)"
      proof (cases "rel = []")
        case True
        then show ?thesis by simp
      next
        case False
        with h have "hd rel \<noteq> CHR ''/''" by simp
        with rooted [of rel] assms have "rel \<noteq> root" "\<not> prefix root rel" by auto
        with c False show ?thesis by simp
      qed
      then have "normalizePath cwd (Str rel) root key = Inr (Str rel)" by (rule second)
      with r inside show ?thesis by (simp add: rel_def)
    next
      case outside
      with canon have "normalizePath cwd (Str pathA) root key = Inr (Str pathA)"
        by (intro second) simp
      with r outside show ?thesis by simp
    qed
  qed
  have "\<exists>r. normalizePath cwd (Str p) root key = Inr r"
    by (simp add: normalizePath_def Let_def)
  with idem show ?thesis by blast
qed

theorem normalizePath_idempotent_witness:
  "''/site'' \<noteq> [] \<and> hd ''/site'' = CHR ''/''
   \<and> normalizePath ''/site'' (Str ''/site/pkg/../dist/'') ''/site'' ''PUBLISH_DIR''
        = Inr (Str ''dist'')
   \<and> normalizePath ''/site'' (Str ''dist'') ''/site'' ''PUBLISH_DIR'' = Inr (Str ''dist'')"
proof -
  have a: "''/site'' \<noteq> []" and b: "hd ''/site'' = CHR ''/''" by simp_all
  have c: "normalizePath ''/site'' (Str ''/site/pkg/../dist/'') ''/site'' ''PUBLISH_DIR''
        = Inr (Str ''dist'')" by code_simp
  from normalizePath_idempotent [OF a b, of "''/site''" "''/site/pkg/../dist/''" "''PUBLISH_DIR''"] c
  have "normalizePath ''/site'' (Str ''dist'') ''/site'' ''PUBLISH_DIR'' = Inr (Str ''dist'')"
    by blast
  with a b c show ?thesis by blast
qed

text \<open>
  C5, as stated, fails: an absolute canonical path outside the build root whose string
  begins with the build root (a sibling directory named with the same prefix) is not
  returned unchanged.
\<close>

theorem normalizePath_outside_counterexample:
  "hd ''/site2/out'' = CHR ''/''
   \<and> path_normalize ''/site2/out'' = ''/site2/out''
   \<and> pathSegments ''/site2/out'' = [''site2'', ''out'']
   \<and> pathSegments ''/site'' = [''site'']
   \<and> normalizePath ''/site'' (Str ''/site2/out'') ''/site'' ''PUBLISH_DIR''
        = Inr (Str ''../site2/out'')"
  by code_simp

text \<open>
  C5, amended. For a path constant, the normalization of a non-empty path is exactly one
  of three things, decided by the canonical form of the path. It is \<^verbatim>\<open>.\<close> when the
  canonical form equals the build root. It is a path relative to the build root when the
  canonical form starts with the build root as a string without being equal to it: the
  result of \<open>path_relative\<close>, which is empty or does not begin with the separator,
  is canonical when the build root is absolute, and resolves against the build root to
  the same location as the canonical form (when the working directory or the build root
  is absolute). It is the canonical form itself when that does not start with the build
  root as a string. So an absolute result occurs only for a path whose canonical form
  does not start with the build root, and a canonical path that does not start with the
  build root is returned unchanged.
\<close>

theorem normalizePath_shape:
  assumes "key \<in> CONSTANT_PATHS" and "p \<noteq> []"
  shows "\<exists>r. normalizePath cwd (Str p) root key = Inr (Str r)
           \<and> (path_normalize p = root \<longrightarrow> r = ''.'')
           \<and> (path_normalize p \<noteq> root \<and> prefix root (path_normalize p) \<longrightarrow>
                 r = path_relative cwd root (path_normalize p)
                 \<and> (r = [] \<or> hd r \<noteq> CHR ''/'')
                 \<and> (path_isAbsolute root \<longrightarrow> r = [] \<or> path_normalize r = r)
                 \<and> (path_isAbsolute cwd \<or> path_isAbsolute root \<longrightarrow>
                       path_resolve cwd [root, r] = path_resolve cwd [path_normalize p]))
           \<and> (\<not> prefix root (path_normalize p) \<longrightarrow> r = path_normalize p)
           \<and> (path_isAbsolute r \<longrightarrow> \<not> prefix root (path_normalize p) \<and> r = path_normalize p)
           \<and> (\<not> prefix root p \<and> path_normalize p = p \<longrightarrow> r = p)"
proof -
  define pathA where "pathA = path_normalize p"
  define r where "r = (if pathA = root then ''.''
      else if prefix root pathA then path_relative cwd root pathA else pathA)"
  have n: "normalizePath cwd (Str p) root key = Inr (Str r)"
    using assms by (simp add: normalizePath_def Let_def r_def pathA_def)
  have eq: "r = ''.''" if "pathA = root"
    using that by (simp add: r_def)
  have out: "r = pathA" if "\<not> prefix root pathA"
    using that by (auto simp: r_def)
  have inside: "r = path_relative cwd root pathA
      \<and> (r = [] \<or> hd r \<noteq> CHR ''/'')
      \<and> (path_isAbsolute root \<longrightarrow> r = [] \<or> path_normalize r = r)
      \<and> (path_isAbsolute cwd \<or> path_isAbsolute root \<longrightarrow>
            path_resolve cwd [root, r] = path_resolve cwd [pathA])"
    if a: "pathA \<noteq> root" and b: "prefix root pathA"
  proof -
    from a b have r: "r = path_relative cwd root pathA" by (simp add: r_def)
    have rooted: "path_isAbsolute pathA" if "path_isAbsolute root"
      using that b by (cases root; cases pathA) (auto simp: path_isAbsolute_def)
    have canon: "r = [] \<or> path_normalize r = r" if ar: "path_isAbsolute root"
    proof -
      from ar rooted have "root \<noteq> []" "hd root = CHR ''/''" "pathA \<noteq> []" "hd pathA = CHR ''/''"
        by (simp_all add: path_isAbsolute_def)
      from path_relative_absolute [OF this, of cwd] show ?thesis by (simp add: r)
    qed
    have rb: "path_resolve cwd [root, r] = path_resolve cwd [pathA]"
      if "path_isAbsolute cwd \<or> path_isAbsolute root"
    proof -
      from that rooted
      have "path_isAbsolute cwd \<or> (path_isAbsolute root \<and> path_isAbsolute pathA)" by blast
      from path_relative_resolves_back [OF this] show ?thesis by (simp add: r)
    qed
    from path_relative_not_rooted [of cwd root pathA] r
    have "r = [] \<or> hd r \<noteq> CHR ''/''" by simp
    with r canon rb show ?thesis by blast
  qed
  have absolute: "\<not> prefix root pathA \<and> r = pathA" if ar: "path_isAbsolute r"
  proof (cases "prefix root pathA")
    case False
    with out show ?thesis by simp
  next
    case True
    show ?thesis
    proof (cases "pathA = root")
      case True
      with eq ar show ?thesis by (simp add: path_isAbsolute_def)
    next
      case False
      with inside True have "r = [] \<or> hd r \<noteq> CHR ''/''" by blast
      with ar show ?thesis by (auto simp: path_isAbsolute_def)
    qed
  qed
  have same: "r = p" if "\<not> prefix root p" "path_normalize p = p"
    using that out by (simp add: pathA_def)
  from n eq inside out absolute same show ?thesis
    unfolding pathA_def by (intro exI [of _ r]) blast
qed

theorem normalizePath_shape_witness:
  "''PUBLISH_DIR'' \<in> CONSTANT_PATHS
   \<and> path_isAbsolute ''/site''
   \<and> path_normalize ''/site/pkg/../dist/'' = ''/site/dist/''
   \<and> prefix ''/site'' ''/site/dist/''
   \<and> normalizePath ''/site'' (Str ''/site/pkg/../dist/'') ''/site'' ''PUBLISH_DIR''
        = Inr (Str ''dist'')
   \<and> path_relative ''/site'' ''/site'' ''/site/dist/'' = ''dist''
   \<and> path_resolve ''/site'' [''/site'', ''dist''] = path_resolve ''/site'' [''/site/dist/'']
   \<and> path_normalize ''/site/.'' = ''/site''
   \<and> normalizePath ''/site'' (Str ''/site/.'') ''/site'' ''PUBLISH_DIR'' = Inr (Str ''.'')
   \<and> \<not> prefix ''/site'' ''/tmp/out'' \<and> path_normalize ''/tmp/out'' = ''/tmp/out''
   \<and> normalizePath ''/site'' (Str ''/tmp/out'') ''/site'' ''PUBLISH_DIR''
        = Inr (Str ''/tmp/out'')"
proof -
  have a: "''PUBLISH_DIR'' \<in> CONSTANT_PATHS" by (simp add: CONSTANT_PATHS_def)
  have b: "''/site/pkg/../dist/'' \<noteq> []" "''/site/.'' \<noteq> []" "''/tmp/out'' \<noteq> []" by simp_all
  have c: "path_isAbsolute ''/site''" by (simp add: path_isAbsolute_def)
  have d: "path_normalize ''/site/pkg/../dist/'' = ''/site/dist/''"
    "path_normalize ''/site/.'' = ''/site''" "path_normalize ''/tmp/out'' = ''/tmp/out''"
    by code_simp+
  have e: "prefix ''/site'' ''/site/dist/''" "\<not> prefix ''/site'' ''/tmp/out''" by simp_all
  have f: "path_relative ''/site'' ''/site'' ''/site/dist/'' = ''dist''" by code_simp
  from normalizePath_shape [OF a b(1), of "''/site''" "''/site''"] c d(1) e(1) f
  have g: "normalizePath ''/site'' (Str ''/site/pkg/../dist/'') ''/site'' ''PUBLISH_DIR''
             = Inr (Str ''dist'')
           \<and> path_resolve ''/site'' [''/site'', ''dist'']
               = path_resolve ''/site'' [''/site/dist/'']"
    by auto
  from normalizePath_shape [OF a b(2), of "''/site''" "''/site''"] d(2)
  have h: "normalizePath ''/site'' (Str ''/site/.'') ''/site'' ''PUBLISH_DIR'' = Inr (Str ''.'')"
    by auto
  from normalizePath_shape [OF a b(3), of "''/site''" "''/site''"] d(3) e(2)
  have i: "normalizePath ''/site'' (Str ''/tmp/out'') ''/site'' ''PUBLISH_DIR''
             = Inr (Str ''/tmp/out'')" by auto
  from a c d e f g h i show ?thesis by blast
qed

end
